theory Spec2Isabelle
  imports Main "HOL-Library.Sublist"
begin

section \<open>Context enrichment: the expanded-content transform of notebook 7\<close>

text \<open>
  The notebook \<^verbatim>\<open>notebooks/7-ExpandedContent-Week3.ipynb\<close> groups the chunk records of a
  podcast corpus by episode, joins every chunk with its neighbours inside a window, and is
  meant to write the joined text back onto the records. The Python functions are embedded
  below under their own names; exceptions are values of the type \<open>error\<close>.
\<close>

subsection \<open>Data model\<close>

text \<open>
  A record of the dataset is a Python \<^verbatim>\<open>dict[str, Any]\<close>: a partial map from field names to
  values. The values that matter here are strings; integers and \<^verbatim>\<open>None\<close> stand for the
  other values a field may hold.
\<close>

datatype pyval = PStr string | PInt int | PNone

type_synonym chunk = "string \<rightharpoonup> pyval"

datatype error = KeyError string | AssertionError | TypeError

text \<open>\<^verbatim>\<open>d[k]\<close> on a dict: raises \<^verbatim>\<open>KeyError\<close> when the key is missing.\<close>

definition getitem :: "chunk \<Rightarrow> string \<Rightarrow> error + pyval" where
  "getitem d k = (case d k of None \<Rightarrow> Inl (KeyError k) | Some v \<Rightarrow> Inr v)"

text \<open>
  A \<^verbatim>\<open>for\<close> loop or list comprehension that computes one value per element and appends it:
  the first exception raised by the body ends the loop.
\<close>

fun for_each :: "('a \<Rightarrow> error + 'b) \<Rightarrow> 'a list \<Rightarrow> error + 'b list" where
  "for_each body [] = Inr []"
| "for_each body (x # xs) =
     (case body x of
        Inl e \<Rightarrow> Inl e
      | Inr y \<Rightarrow> (case for_each body xs of Inl e \<Rightarrow> Inl e | Inr ys \<Rightarrow> Inr (y # ys)))"

subsection \<open>Library functions used by the notebook\<close>

text \<open>
  \<^verbatim>\<open>itertools.groupby(iterable, key)\<close>: \<open>grouper\<close> collects the elements that follow while
  their key equals the target key and hands back the remaining input; \<open>groupby\<close> starts a
  group at the first element that is left and continues after the group.
\<close>

fun grouper :: "('a \<Rightarrow> error + 'k) \<Rightarrow> 'k \<Rightarrow> 'a list \<Rightarrow> error + ('a list \<times> 'a list)" where
  "grouper keyfunc tgtkey [] = Inr ([], [])"
| "grouper keyfunc tgtkey (x # xs) =
     (case keyfunc x of
        Inl e \<Rightarrow> Inl e
      | Inr currkey \<Rightarrow>
          if currkey = tgtkey
          then (case grouper keyfunc tgtkey xs of
                  Inl e \<Rightarrow> Inl e
                | Inr (g, rest) \<Rightarrow> Inr (x # g, rest))
          else Inr ([], x # xs))"

lemma grouper_rest_length:
  "grouper keyfunc tgtkey xs = Inr (g, rest) \<Longrightarrow> length rest \<le> length xs"
  by (induction xs arbitrary: g rest) (auto split: sum.splits if_splits)

function groupby :: "('a \<Rightarrow> error + 'k) \<Rightarrow> 'a list \<Rightarrow> error + ('k \<times> 'a list) list" where
  "groupby keyfunc [] = Inr []"
| "groupby keyfunc (x # xs) =
     (case keyfunc x of
        Inl e \<Rightarrow> Inl e
      | Inr k \<Rightarrow>
          (case grouper keyfunc k xs of
             Inl e \<Rightarrow> Inl e
           | Inr (g, rest) \<Rightarrow>
               (case groupby keyfunc rest of
                  Inl e \<Rightarrow> Inl e
                | Inr groups \<Rightarrow> Inr ((k, x # g) # groups))))"
  by pat_completeness auto
termination
  by (relation "measure (\<lambda>(keyfunc, xs). length xs)")
     (auto dest: grouper_rest_length simp: less_Suc_eq_le)

text \<open>
  A slice \<^verbatim>\<open>xs[start:stop]\<close> with integer bounds: a negative bound counts from the end of
  the list, and every bound is clamped to the list. The slice is empty when the adjusted
  start is not below the adjusted stop.
\<close>

definition slice_index :: "nat \<Rightarrow> int \<Rightarrow> nat" where
  "slice_index n i =
     (if i < 0 then (if i + int n < 0 then 0 else nat (i + int n))
      else if int n < i then n else nat i)"

definition py_slice :: "'a list \<Rightarrow> int \<Rightarrow> int \<Rightarrow> 'a list" where
  "py_slice xs start stop =
     (let lo = slice_index (length xs) start;
          hi = slice_index (length xs) stop
      in take (hi - lo) (drop lo xs))"

text \<open>
  \<^verbatim>\<open>sep.join(items)\<close>: the items separated by \<open>sep\<close>; \<^verbatim>\<open>TypeError\<close> when an item is not a
  string.
\<close>

fun str_join :: "string \<Rightarrow> string list \<Rightarrow> string" where
  "str_join sep [] = []"
| "str_join sep [x] = x"
| "str_join sep (x # y # ys) = x @ sep @ str_join sep (y # ys)"

definition as_str :: "pyval \<Rightarrow> error + string" where
  "as_str v = (case v of PStr s \<Rightarrow> Inr s | _ \<Rightarrow> Inl TypeError)"

definition join :: "string \<Rightarrow> pyval list \<Rightarrow> error + string" where
  "join sep items =
     (case for_each as_str items of Inl e \<Rightarrow> Inl e | Inr ss \<Rightarrow> Inr (str_join sep ss))"

subsection \<open>The notebook's functions\<close>

text \<open>
  \<^verbatim>\<open>groupby_episode(data, key_field='video_id')\<close>: one list per run of records with the
  same key, in order.
\<close>

definition groupby_episode :: "chunk list \<Rightarrow> string \<Rightarrow> error + chunk list list" where
  "groupby_episode data key_field =
     (case groupby (\<lambda>x. getitem x key_field) data of
        Inl e \<Rightarrow> Inl e
      | Inr groups \<Rightarrow> Inr (map snd groups))"

text \<open>
  The body of the inner loop of \<^verbatim>\<open>create_expanded_content\<close> at position \<open>i\<close> of an episode:
  \<open>window\<close> is the slice \<^verbatim>\<open>episode[start:end]\<close>, \<open>expanded_content_at\<close> the joined string.
\<close>

definition window :: "int \<Rightarrow> 'a list \<Rightarrow> nat \<Rightarrow> 'a list" where
  "window window_size episode i =
     (let start = max 0 (int i - window_size);
          stop = int i + window_size + 1
      in py_slice episode start stop)"

definition expanded_content_at :: "int \<Rightarrow> pyval list \<Rightarrow> nat \<Rightarrow> error + string" where
  "expanded_content_at window_size episode i = join '' '' (window window_size episode i)"

text \<open>The inner loop: \<^verbatim>\<open>episode_container\<close> for one episode.\<close>

definition episode_container :: "int \<Rightarrow> pyval list \<Rightarrow> error + string list" where
  "episode_container window_size episode =
     for_each (expanded_content_at window_size episode) [0 ..< length episode]"

text \<open>
  \<^verbatim>\<open>create_expanded_content(data, window_size=1, num_episodes=193, key_field='video_id')\<close>:
  the grouping, the assertion on the number of groups, the extraction of the
  \<^verbatim>\<open>content\<close> fields group by group, and the two nested loops. \<^verbatim>\<open>tqdm\<close> only reports
  progress and hands on the list it wraps.
\<close>

definition create_expanded_content ::
  "chunk list \<Rightarrow> int \<Rightarrow> int \<Rightarrow> string \<Rightarrow> error + string list list" where
  "create_expanded_content data window_size num_episodes key_field =
     (case groupby_episode data key_field of
        Inl e \<Rightarrow> Inl e
      | Inr episodes \<Rightarrow>
          if int (length episodes) \<noteq> num_episodes then Inl AssertionError
          else
            (case for_each (for_each (\<lambda>d. getitem d ''content'')) episodes of
               Inl e \<Rightarrow> Inl e
             | Inr chunk_list \<Rightarrow> for_each (episode_container window_size) chunk_list))"

text \<open>
  \<^verbatim>\<open>join_expanded_content(data, flattened_content, new_key='expanded_content')\<close>, as the
  notebook ships it: between the docstring and \<^verbatim>\<open>return data\<close> the body is left to be
  written, so the function returns its first argument as it received it. The notebook
  calls it with \<^verbatim>\<open>None\<close> for both arguments, hence the polymorphic type.
\<close>

definition join_expanded_content :: "'d \<Rightarrow> 'f \<Rightarrow> string \<Rightarrow> error + 'd" where
  "join_expanded_content data flattened_content new_key = Inr data"



text \<open>
  The loop of the post-check cell:
  \<^verbatim>\<open>for d in data: assert d.get('expanded_content', -1) != -1\<close>.
\<close>

definition dict_get :: "chunk \<Rightarrow> string \<Rightarrow> pyval \<Rightarrow> pyval" where
  "dict_get d k dflt = (case d k of None \<Rightarrow> dflt | Some v \<Rightarrow> v)"

definition post_check :: "chunk list \<Rightarrow> error + unit list" where
  "post_check data =
     for_each (\<lambda>d. if dict_get d ''expanded_content'' (PInt (- 1)) \<noteq> PInt (- 1)
                    then Inr () else Inl AssertionError) data"

subsection \<open>Vocabulary of the properties\<close>

text \<open>
  A record is well formed for a key field when it carries that field and its
  \<^verbatim>\<open>content\<close> field is a string; \<open>content_text\<close> reads that string.
\<close>

definition well_formed :: "string \<Rightarrow> chunk \<Rightarrow> bool" where
  "well_formed key_field d \<longleftrightarrow>
     d key_field \<noteq> None \<and> (case d ''content'' of Some (PStr s) \<Rightarrow> True | _ \<Rightarrow> False)"

definition content_text :: "chunk \<Rightarrow> string" where
  "content_text d = (case d ''content'' of Some (PStr s) \<Rightarrow> s | _ \<Rightarrow> [])"

text \<open>
  The Window Joiner in the words of its contract: at position \<open>i\<close>, the chunks at the
  positions from \<open>max(0, i - W)\<close> to \<open>i + W\<close> inclusive, clamped to the group, joined with
  one space.
\<close>

definition spec_window :: "nat \<Rightarrow> 'a list \<Rightarrow> nat \<Rightarrow> 'a list" where
  "spec_window W chunks i =
     map ((!) chunks) [nat (max 0 (int i - int W)) ..< min (length chunks) (i + W + 1)]"

definition spec_expanded :: "nat \<Rightarrow> string list \<Rightarrow> string list" where
  "spec_expanded W chunks =
     map (\<lambda>i. str_join '' '' (spec_window W chunks i)) [0 ..< length chunks]"

text \<open>An example record with the two fields the transform reads.\<close>

definition mk_chunk :: "string \<Rightarrow> string \<Rightarrow> chunk" where
  "mk_chunk video_id content =
     [''video_id'' \<mapsto> PStr video_id, ''content'' \<mapsto> PStr content]"

lemmas run_simps =
  mk_chunk_def getitem_def groupby_episode_def create_expanded_content_def
  episode_container_def expanded_content_at_def window_def py_slice_def
  slice_index_def join_def as_str_def

section \<open>Lemmas about the loops and the library functions\<close>

subsection \<open>Loops and joined strings\<close>

lemma for_each_Inr_iff:
  "for_each body xs = Inr ys \<longleftrightarrow> list_all2 (\<lambda>x y. body x = Inr y) xs ys"
proof (induction xs arbitrary: ys)
  case Nil
  then show ?case by auto
next
  case (Cons x xs)
  show ?case
    by (cases ys) (auto split: sum.splits simp: Cons.IH[symmetric])
qed

lemma for_each_map:
  "\<forall>x \<in> set xs. body x = Inr (f x) \<Longrightarrow> for_each body xs = Inr (map f xs)"
  by (induction xs) auto

lemma for_each_error:
  "for_each body xs = Inl e \<Longrightarrow> \<exists>x \<in> set xs. body x = Inl e"
  by (induction xs) (auto split: sum.splits)

lemma for_each_as_str: "for_each as_str (map PStr ss) = Inr ss"
  by (induction ss) (auto simp: as_str_def)

lemma join_strs: "join sep (map PStr ss) = Inr (str_join sep ss)"
  by (simp add: join_def for_each_as_str)

lemma join_error: "join sep items = Inl e \<Longrightarrow> e = TypeError"
  by (auto simp: join_def as_str_def split: sum.splits pyval.splits dest!: for_each_error)

lemma str_join_sublist: "s \<in> set ss \<Longrightarrow> sublist s (str_join sep ss)"
proof (induction sep ss rule: str_join.induct)
  case (1 sep)
  then show ?case by simp
next
  case (2 sep x)
  then show ?case by simp
next
  case (3 sep x y ys)
  show ?case
  proof (cases "s = x")
    case True
    then show ?thesis by simp
  next
    case False
    with "3.prems" have "s \<in> set (y # ys)" by simp
    from "3.IH"[OF this] have "sublist s (str_join sep (y # ys))" .
    then obtain ps qs where "str_join sep (y # ys) = ps @ s @ qs"
      by (auto simp: sublist_def)
    then have "str_join sep (x # y # ys) = (x @ sep @ ps) @ s @ qs" by simp
    then show ?thesis unfolding sublist_def by blast
  qed
qed

lemma join_item:
  assumes "join sep items = Inr s" and "v \<in> set items"
  shows "\<exists>c. v = PStr c \<and> sublist c s"
proof -
  from assms(1) obtain ss where ss: "for_each as_str items = Inr ss" and s: "s = str_join sep ss"
    by (auto simp: join_def split: sum.splits)
  from ss have "list_all2 (\<lambda>v c. as_str v = Inr c) items ss"
    by (simp add: for_each_Inr_iff)
  with assms(2) obtain i where "i < length ss" and "as_str v = Inr (ss ! i)"
    by (auto simp: list_all2_conv_all_nth in_set_conv_nth)
  then obtain c where "c \<in> set ss" and "as_str v = Inr c"
    using nth_mem by blast
  then have "v = PStr c" and "sublist c s"
    using s by (auto simp: as_str_def str_join_sublist split: pyval.splits)
  then show ?thesis by blast
qed

lemma list_all2_concat:
  "list_all2 (list_all2 P) xss yss \<Longrightarrow> list_all2 P (concat xss) (concat yss)"
  by (induction xss yss rule: list_all2_induct) (auto intro: list_all2_appendI)

subsection \<open>Slices and windows\<close>

lemma py_slice_map: "py_slice (map f xs) start stop = map f (py_slice xs start stop)"
  by (simp add: py_slice_def Let_def take_map drop_map)

lemma window_map: "window window_size (map f episode) i = map f (window window_size episode i)"
  by (simp add: window_def Let_def py_slice_map)

lemma take_drop_upt:
  "hi \<le> length xs \<Longrightarrow> take (hi - lo) (drop lo xs) = map ((!) xs) [lo ..< hi]"
  by (rule map_upt_eqI[symmetric]) auto

lemma window_nonneg:
  assumes "0 \<le> window_size" and "i < length episode"
  shows "window window_size episode i =
           map ((!) episode)
             [i - nat window_size ..< min (length episode) (i + nat window_size + 1)]"
proof -
  let ?n = "length episode"
  have lo: "slice_index ?n (max 0 (int i - window_size)) = i - nat window_size"
    using assms by (auto simp: slice_index_def max_def)
  have hi: "slice_index ?n (int i + window_size + 1) = min ?n (i + nat window_size + 1)"
    using assms by (auto simp: slice_index_def min_def)
  show ?thesis
    unfolding window_def Let_def py_slice_def lo hi
    by (simp add: take_drop_upt)
qed

lemma window_spec_window:
  assumes "0 \<le> window_size" and "i < length chunks"
  shows "window window_size chunks i = spec_window (nat window_size) chunks i"
proof -
  have "nat (max 0 (int i - window_size)) = i - nat window_size"
    using assms by (auto simp: max_def)
  with assms show ?thesis
    by (simp add: window_nonneg spec_window_def)
qed

lemma window_length_nonneg:
  assumes "0 \<le> window_size" and "i < length episode"
  shows "length (window window_size episode i) =
           min (length episode) (i + nat window_size + 1) - (i - nat window_size)"
  by (simp add: window_nonneg[OF assms])

lemma window_contains:
  assumes "0 \<le> window_size" and "i < length episode"
  shows "episode ! i \<in> set (window window_size episode i)"
proof -
  have "i \<in> set [i - nat window_size ..< min (length episode) (i + nat window_size + 1)]"
    using assms by auto
  then show ?thesis
    unfolding window_nonneg[OF assms] set_map by (rule imageI)
qed

lemma window_zero: "i < length episode \<Longrightarrow> window 0 episode i = [episode ! i]"
  using window_nonneg[of 0 i episode] by (simp add: min_def upt_rec)

lemma window_negative_empty:
  assumes "window_size < 0" and "i < length episode"
    and "0 \<le> int i + window_size + 1 \<or> int (length episode) < - 2 * window_size"
  shows "window window_size episode i = []"
  using assms by (auto simp: window_def py_slice_def slice_index_def Let_def max_def)

lemma window_negative_wrap:
  assumes "window_size < 0" and "i < length episode"
    and "int i + window_size + 1 < 0" and "- 2 * window_size \<le> int (length episode)"
  shows "window window_size episode i =
           map ((!) episode)
             [nat (int i - window_size) ..< nat (int (length episode) + int i + window_size + 1)] \<and>
         nat (int i - window_size) < nat (int (length episode) + int i + window_size + 1) \<and>
         nat (int (length episode) + int i + window_size + 1) \<le> length episode"
proof -
  let ?n = "length episode"
  have lo: "slice_index ?n (max 0 (int i - window_size)) = nat (int i - window_size)"
    using assms by (auto simp: slice_index_def max_def)
  have hi: "slice_index ?n (int i + window_size + 1) = nat (int ?n + int i + window_size + 1)"
  proof -
    have "int i + window_size + 1 + int ?n = int ?n + int i + window_size + 1" by simp
    with assms show ?thesis by (simp add: slice_index_def)
  qed
  have le: "nat (int ?n + int i + window_size + 1) \<le> ?n"
    using assms by linarith
  have lt: "nat (int i - window_size) < nat (int ?n + int i + window_size + 1)"
    using assms by linarith
  have "window window_size episode i =
           map ((!) episode)
             [nat (int i - window_size) ..< nat (int ?n + int i + window_size + 1)]"
    unfolding window_def Let_def py_slice_def lo hi
    by (rule take_drop_upt[OF le])
  with lt le show ?thesis by blast
qed

lemma window_negative_wrap_text:
  assumes "window_size < 0" and "i < length ep"
    and "int i + window_size + 1 < 0" and "- 2 * window_size \<le> int (length ep)"
  shows "window window_size (map content_text ep) i =
           map (\<lambda>j. content_text (ep ! j))
             [nat (int i - window_size) ..< nat (int (length ep) + int i + window_size + 1)]"
proof -
  from window_negative_wrap[of window_size i "map content_text ep"] assms
  have w: "window window_size (map content_text ep) i =
             map ((!) (map content_text ep))
               [nat (int i - window_size) ..< nat (int (length ep) + int i + window_size + 1)]"
    and le: "nat (int (length ep) + int i + window_size + 1) \<le> length ep"
    by simp_all
  have "map ((!) (map content_text ep))
          [nat (int i - window_size) ..< nat (int (length ep) + int i + window_size + 1)] =
        map (\<lambda>j. content_text (ep ! j))
          [nat (int i - window_size) ..< nat (int (length ep) + int i + window_size + 1)]"
    using le by (intro map_cong refl) simp
  with w show ?thesis by simp
qed

lemma episode_container_strs:
  "episode_container window_size (map PStr chunks) =
     Inr (map (\<lambda>i. str_join '' '' (window window_size chunks i)) [0 ..< length chunks])"
proof -
  have "for_each (expanded_content_at window_size (map PStr chunks)) [0 ..< length chunks] =
          Inr (map (\<lambda>i. str_join '' '' (window window_size chunks i)) [0 ..< length chunks])"
    by (rule for_each_map) (simp add: expanded_content_at_def window_map join_strs)
  then show ?thesis
    by (simp add: episode_container_def)
qed

lemma episode_container_error: "episode_container window_size episode = Inl e \<Longrightarrow> e = TypeError"
  by (auto simp: episode_container_def expanded_content_at_def dest!: for_each_error join_error)

lemma episode_container_items:
  assumes "0 \<le> window_size" and "episode_container window_size episode = Inr strs"
  shows "list_all2 (\<lambda>v s. \<exists>c. v = PStr c \<and> sublist c s) episode strs"
proof -
  from assms(2)
  have l: "list_all2 (\<lambda>i s. expanded_content_at window_size episode i = Inr s)
             [0 ..< length episode] strs"
    by (simp add: episode_container_def for_each_Inr_iff)
  then have len: "length strs = length episode"
    by (auto dest: list_all2_lengthD)
  have "\<exists>c. episode ! i = PStr c \<and> sublist c (strs ! i)" if i: "i < length episode" for i
  proof -
    from l i have "join '' '' (window window_size episode i) = Inr (strs ! i)"
      by (auto simp: list_all2_conv_all_nth expanded_content_at_def)
    from join_item[OF this window_contains[OF assms(1) i]] show ?thesis .
  qed
  with len show ?thesis
    by (simp add: list_all2_conv_all_nth)
qed

subsection \<open>Grouping\<close>

lemma grouper_append:
  "grouper keyfunc tgtkey xs = Inr (g, rest) \<Longrightarrow> g @ rest = xs"
  by (induction xs arbitrary: g rest) (auto split: sum.splits if_splits)

lemma grouper_keys:
  "grouper keyfunc tgtkey xs = Inr (g, rest) \<Longrightarrow> \<forall>y \<in> set g. keyfunc y = Inr tgtkey"
  by (induction xs arbitrary: g rest) (auto split: sum.splits if_splits)

lemma grouper_rest_key:
  "grouper keyfunc tgtkey xs = Inr (g, rest) \<Longrightarrow> rest \<noteq> [] \<Longrightarrow>
     \<exists>k. keyfunc (hd rest) = Inr k \<and> k \<noteq> tgtkey"
  by (induction xs arbitrary: g rest) (auto split: sum.splits if_splits)

lemma grouper_total:
  "\<forall>y \<in> set xs. \<exists>k. keyfunc y = Inr k \<Longrightarrow>
     \<exists>g rest. grouper keyfunc tgtkey xs = Inr (g, rest)"
  by (induction xs) (auto split: sum.splits)

lemma grouper_whole:
  "\<forall>y \<in> set xs. keyfunc y = Inr tgtkey \<Longrightarrow> grouper keyfunc tgtkey xs = Inr (xs, [])"
  by (induction xs) auto

lemma grouper_error:
  "grouper keyfunc tgtkey xs = Inl e \<Longrightarrow> \<exists>x \<in> set xs. keyfunc x = Inl e"
  by (induction xs) (auto split: sum.splits if_splits)

lemma groupby_concat:
  "groupby keyfunc xs = Inr groups \<Longrightarrow> concat (map snd groups) = xs"
proof (induction keyfunc xs arbitrary: groups rule: groupby.induct)
  case (1 keyfunc)
  then show ?case by simp
next
  case (2 keyfunc x xs)
  from "2.prems" obtain k g rest gs where
    k: "keyfunc x = Inr k" and g: "grouper keyfunc k xs = Inr (g, rest)"
    and gs: "groupby keyfunc rest = Inr gs" and groups: "groups = (k, x # g) # gs"
    by (auto split: sum.splits)
  from "2.IH"[OF k g refl gs] have "concat (map snd gs) = rest" .
  with grouper_append[OF g] groups show ?case by simp
qed

lemma groupby_hd:
  "groupby keyfunc xs = Inr groups \<Longrightarrow> xs \<noteq> [] \<Longrightarrow>
     groups \<noteq> [] \<and> keyfunc (hd xs) = Inr (fst (hd groups))"
  by (cases xs) (auto split: sum.splits)

lemma groupby_groups:
  "groupby keyfunc xs = Inr groups \<Longrightarrow>
     \<forall>(k, g) \<in> set groups. g \<noteq> [] \<and> (\<forall>y \<in> set g. keyfunc y = Inr k)"
proof (induction keyfunc xs arbitrary: groups rule: groupby.induct)
  case (1 keyfunc)
  then show ?case by simp
next
  case (2 keyfunc x xs)
  from "2.prems" obtain k g rest gs where
    k: "keyfunc x = Inr k" and g: "grouper keyfunc k xs = Inr (g, rest)"
    and gs: "groupby keyfunc rest = Inr gs" and groups: "groups = (k, x # g) # gs"
    by (auto split: sum.splits)
  from "2.IH"[OF k g refl gs] grouper_keys[OF g] k groups show ?case by auto
qed

lemma groupby_distinct_adj:
  "groupby keyfunc xs = Inr groups \<Longrightarrow> distinct_adj (map fst groups)"
proof (induction keyfunc xs arbitrary: groups rule: groupby.induct)
  case (1 keyfunc)
  then show ?case by simp
next
  case (2 keyfunc x xs)
  from "2.prems" obtain k g rest gs where
    k: "keyfunc x = Inr k" and g: "grouper keyfunc k xs = Inr (g, rest)"
    and gs: "groupby keyfunc rest = Inr gs" and groups: "groups = (k, x # g) # gs"
    by (auto split: sum.splits)
  have IH: "distinct_adj (map fst gs)" by (rule "2.IH"[OF k g refl gs])
  show ?case
  proof (cases "rest = []")
    case True
    with gs groups show ?thesis by simp
  next
    case False
    from groupby_hd[OF gs False] grouper_rest_key[OF g False]
    have "gs \<noteq> []" and "fst (hd gs) \<noteq> k" by auto
    with IH groups show ?thesis by (cases gs) auto
  qed
qed

lemma groupby_total:
  "\<forall>y \<in> set xs. \<exists>k. keyfunc y = Inr k \<Longrightarrow> \<exists>groups. groupby keyfunc xs = Inr groups"
proof (induction keyfunc xs rule: groupby.induct)
  case (1 keyfunc)
  then show ?case by simp
next
  case (2 keyfunc x xs)
  from "2.prems" obtain k where k: "keyfunc x = Inr k" by auto
  from "2.prems" grouper_total[of xs keyfunc k] obtain g rest where
    g: "grouper keyfunc k xs = Inr (g, rest)" by auto
  from grouper_append[OF g] "2.prems" have "\<forall>y \<in> set rest. \<exists>k. keyfunc y = Inr k" by auto
  from "2.IH"[OF k g refl this] obtain gs where "groupby keyfunc rest = Inr gs" ..
  with k g show ?case by simp
qed

lemma groupby_single:
  "xs \<noteq> [] \<Longrightarrow> \<forall>y \<in> set xs. keyfunc y = Inr k \<Longrightarrow> groupby keyfunc xs = Inr [(k, xs)]"
  by (cases xs) (simp_all add: grouper_whole)

lemma groupby_error:
  "groupby keyfunc xs = Inl e \<Longrightarrow> \<exists>x \<in> set xs. keyfunc x = Inl e"
proof (induction keyfunc xs rule: groupby.induct)
  case (1 keyfunc)
  then show ?case by simp
next
  case (2 keyfunc x xs)
  show ?case
  proof (cases "keyfunc x")
    case (Inl e')
    with "2.prems" show ?thesis by auto
  next
    case (Inr k)
    show ?thesis
    proof (cases "grouper keyfunc k xs")
      case (Inl e')
      with Inr "2.prems" grouper_error[of keyfunc k xs e] show ?thesis by auto
    next
      case g: (Inr p)
      obtain g rest where p: "p = (g, rest)" by (cases p)
      from "2.prems" Inr g p have "groupby keyfunc rest = Inl e"
        by (auto split: sum.splits)
      from "2.IH"[OF Inr g[unfolded p] refl this] grouper_append[OF g[unfolded p]]
      show ?thesis by auto
    qed
  qed
qed

lemma groupby_episode_total:
  assumes "\<forall>d \<in> set data. d key_field \<noteq> None"
  shows "\<exists>episodes. groupby_episode data key_field = Inr episodes"
proof -
  from assms have "\<forall>d \<in> set data. \<exists>k. getitem d key_field = Inr k"
    by (auto simp: getitem_def)
  from groupby_total[OF this] show ?thesis
    by (auto simp: groupby_episode_def)
qed

lemma groupby_episode_concat_eq:
  "groupby_episode data key_field = Inr episodes \<Longrightarrow> concat episodes = data"
  by (auto simp: groupby_episode_def split: sum.splits dest: groupby_concat)

lemma groupby_episode_error:
  "groupby_episode data key_field = Inl e \<Longrightarrow> e = KeyError key_field"
  by (auto simp: groupby_episode_def getitem_def split: sum.splits option.splits
           dest!: groupby_error)

lemma groupby_episode_group:
  assumes "groupby_episode data key_field = Inr episodes" and "ep \<in> set episodes"
  shows "groupby_episode ep key_field = Inr [ep]"
proof -
  from assms obtain groups where
    groups: "groupby (\<lambda>x. getitem x key_field) data = Inr groups" and "ep \<in> snd ` set groups"
    by (auto simp: groupby_episode_def split: sum.splits)
  then obtain k where "(k, ep) \<in> set groups" by auto
  with groupby_groups[OF groups]
  have "ep \<noteq> []" and "\<forall>y \<in> set ep. getitem y key_field = Inr k" by auto
  from groupby_single[OF this] show ?thesis
    by (simp add: groupby_episode_def)
qed

lemma groupby_episode_keys:
  assumes "groupby_episode data key_field = Inr episodes"
  shows "\<exists>keys. length keys = length episodes \<and>
           (\<forall>j < length episodes.
              episodes ! j \<noteq> [] \<and> (\<forall>d \<in> set (episodes ! j). d key_field = Some (keys ! j))) \<and>
           (\<forall>j. Suc j < length episodes \<longrightarrow> keys ! j \<noteq> keys ! Suc j)"
proof -
  from assms obtain groups where
    groups: "groupby (\<lambda>x. getitem x key_field) data = Inr groups"
    and episodes: "episodes = map snd groups"
    by (auto simp: groupby_episode_def split: sum.splits)
  let ?keys = "map fst groups"
  have same: "episodes ! j \<noteq> [] \<and> (\<forall>d \<in> set (episodes ! j). d key_field = Some (?keys ! j))"
    if "j < length episodes" for j
  proof -
    from that episodes have "groups ! j \<in> set groups" by simp
    with groupby_groups[OF groups]
    have "snd (groups ! j) \<noteq> [] \<and>
          (\<forall>y \<in> set (snd (groups ! j)). getitem y key_field = Inr (fst (groups ! j)))"
      by (auto simp: case_prod_beta)
    with that episodes show ?thesis
      by (auto simp: getitem_def split: option.splits)
  qed
  have adj: "?keys ! j \<noteq> ?keys ! Suc j" if "Suc j < length episodes" for j
    using groupby_distinct_adj[OF groups] that episodes by (simp add: distinct_adj_conv_nth)
  from same adj episodes show ?thesis
    by (intro exI[of _ ?keys]) simp
qed

lemma groupby_episode_boundaries:
  assumes "groupby_episode data key_field = Inr episodes"
  shows "(\<forall>g \<in> set episodes. g \<noteq> [] \<and> (\<exists>v. \<forall>d \<in> set g. d key_field = Some v)) \<and>
         (\<forall>j. Suc j < length episodes \<longrightarrow>
            last (episodes ! j) key_field \<noteq> hd (episodes ! Suc j) key_field)"
proof -
  from groupby_episode_keys[OF assms] obtain keys where
    same: "\<And>j. j < length episodes \<Longrightarrow>
             episodes ! j \<noteq> [] \<and> (\<forall>d \<in> set (episodes ! j). d key_field = Some (keys ! j))"
    and adj: "\<And>j. Suc j < length episodes \<Longrightarrow> keys ! j \<noteq> keys ! Suc j"
    by blast
  have 1: "g \<noteq> [] \<and> (\<exists>v. \<forall>d \<in> set g. d key_field = Some v)" if "g \<in> set episodes" for g
  proof -
    from that obtain j where "j < length episodes" and "g = episodes ! j"
      by (auto simp: in_set_conv_nth)
    with same[of j] show ?thesis by auto
  qed
  have 2: "last (episodes ! j) key_field \<noteq> hd (episodes ! Suc j) key_field"
    if j: "Suc j < length episodes" for j
  proof -
    from j have j': "j < length episodes" by simp
    from same[OF j'] have "last (episodes ! j) \<in> set (episodes ! j)" by simp
    with same[OF j'] have l: "last (episodes ! j) key_field = Some (keys ! j)" by blast
    from same[OF j] have "hd (episodes ! Suc j) \<in> set (episodes ! Suc j)" by simp
    with same[OF j] have h: "hd (episodes ! Suc j) key_field = Some (keys ! Suc j)" by blast
    from l h adj[OF j] show ?thesis by simp
  qed
  show ?thesis
  proof (intro conjI ballI allI impI)
    fix g assume "g \<in> set episodes"
    from 1[OF this] show "g \<noteq> []" and "\<exists>v. \<forall>d \<in> set g. d key_field = Some v" by simp_all
  next
    fix j assume "Suc j < length episodes"
    from 2[OF this] show "last (episodes ! j) key_field \<noteq> hd (episodes ! Suc j) key_field" .
  qed
qed

subsection \<open>The whole transform\<close>

lemma getitem_content_wf:
  "well_formed key_field d \<Longrightarrow> getitem d ''content'' = Inr (PStr (content_text d))"
  by (auto simp: well_formed_def getitem_def content_text_def split: option.splits pyval.splits)

lemma chunk_list_wf:
  assumes "\<forall>ep \<in> set episodes. \<forall>d \<in> set ep. well_formed key_field d"
  shows "for_each (for_each (\<lambda>d. getitem d ''content'')) episodes =
           Inr (map (\<lambda>ep. map PStr (map content_text ep)) episodes)"
proof (rule for_each_map, rule ballI)
  fix ep assume "ep \<in> set episodes"
  with assms have "\<forall>d \<in> set ep. getitem d ''content'' = Inr (PStr (content_text d))"
    by (auto dest: getitem_content_wf)
  then have "for_each (\<lambda>d. getitem d ''content'') ep = Inr (map (\<lambda>d. PStr (content_text d)) ep)"
    by (rule for_each_map)
  then show "for_each (\<lambda>d. getitem d ''content'') ep = Inr (map PStr (map content_text ep))"
    by simp
qed

lemma create_expanded_content_wf:
  assumes wf: "\<forall>d \<in> set data. well_formed key_field d"
    and g: "groupby_episode data key_field = Inr episodes"
    and n: "int (length episodes) = num_episodes"
  shows "create_expanded_content data window_size num_episodes key_field =
           Inr (map (\<lambda>ep. map (\<lambda>i. str_join '' '' (window window_size (map content_text ep) i))
                              [0 ..< length ep]) episodes)"
proof -
  from groupby_episode_concat_eq[OF g] wf
  have wf': "\<forall>ep \<in> set episodes. \<forall>d \<in> set ep. well_formed key_field d" by auto
  have "for_each (episode_container window_size) (map (\<lambda>ep. map PStr (map content_text ep)) episodes) =
          Inr (map (\<lambda>cl. map (\<lambda>i. str_join '' '' (window window_size (map content_text cl) i))
                              [0 ..< length cl]) episodes)"
    unfolding for_each_Inr_iff
    by (simp add: list_all2_conv_all_nth episode_container_strs del: map_map)
  with g n chunk_list_wf[OF wf'] show ?thesis
    by (simp add: create_expanded_content_def)
qed

lemma create_expanded_content_per_episode:
  assumes "create_expanded_content data window_size num_episodes key_field = Inr out"
  shows "\<exists>episodes. groupby_episode data key_field = Inr episodes \<and>
           concat episodes = data \<and> length out = length episodes \<and>
           (\<forall>g < length episodes.
              create_expanded_content (episodes ! g) window_size 1 key_field = Inr [out ! g])"
proof -
  from assms obtain episodes chunk_list where
    g: "groupby_episode data key_field = Inr episodes"
    and cl: "for_each (for_each (\<lambda>d. getitem d ''content'')) episodes = Inr chunk_list"
    and out: "for_each (episode_container window_size) chunk_list = Inr out"
    by (auto simp: create_expanded_content_def split: sum.splits if_splits)
  from cl have cl2: "list_all2 (\<lambda>ep c. for_each (\<lambda>d. getitem d ''content'') ep = Inr c) episodes chunk_list"
    by (simp add: for_each_Inr_iff)
  from out have out2: "list_all2 (\<lambda>c strs. episode_container window_size c = Inr strs) chunk_list out"
    by (simp add: for_each_Inr_iff)
  have len: "length out = length episodes"
    using cl2 out2 by (simp add: list_all2_lengthD)
  have "create_expanded_content (episodes ! j) window_size 1 key_field = Inr [out ! j]"
    if j: "j < length episodes" for j
  proof -
    from j have "groupby_episode (episodes ! j) key_field = Inr [episodes ! j]"
      by (intro groupby_episode_group[OF g]) simp
    moreover from cl2 j have "for_each (\<lambda>d. getitem d ''content'') (episodes ! j) = Inr (chunk_list ! j)"
      by (simp add: list_all2_conv_all_nth)
    moreover from out2 cl2 j have "episode_container window_size (chunk_list ! j) = Inr (out ! j)"
      by (simp add: list_all2_conv_all_nth)
    ultimately show ?thesis
      by (simp add: create_expanded_content_def)
  qed
  with g len groupby_episode_concat_eq[OF g] show ?thesis by blast
qed

section \<open>The Episode Grouper\<close>

text \<open>
  C3. Whenever \<open>groupby_episode\<close> returns, the groups concatenated in order are the input
  sequence itself, so no record is reordered, dropped or duplicated; every group is
  non-empty and all its records carry one key value, so no group holds records of two
  episodes; and the last record of a group and the first record of the next differ in the
  key, so no run of one key value is cut in two. It returns whenever every record carries
  the key field (otherwise the lookup of the key raises \<^verbatim>\<open>KeyError\<close> and no groups are
  produced).
\<close>

theorem groupby_episode_concat:
  "(\<forall>episodes. groupby_episode data key_field = Inr episodes \<longrightarrow>
      concat episodes = data \<and>
      (\<forall>g \<in> set episodes. g \<noteq> [] \<and> (\<exists>v. \<forall>d \<in> set g. d key_field = Some v)) \<and>
      (\<forall>j. Suc j < length episodes \<longrightarrow>
         last (episodes ! j) key_field \<noteq> hd (episodes ! Suc j) key_field)) \<and>
   ((\<forall>d \<in> set data. d key_field \<noteq> None) \<longrightarrow>
      (\<exists>episodes. groupby_episode data key_field = Inr episodes))"
proof (rule conjI)
  show "\<forall>episodes. groupby_episode data key_field = Inr episodes \<longrightarrow>
      concat episodes = data \<and>
      (\<forall>g \<in> set episodes. g \<noteq> [] \<and> (\<exists>v. \<forall>d \<in> set g. d key_field = Some v)) \<and>
      (\<forall>j. Suc j < length episodes \<longrightarrow>
         last (episodes ! j) key_field \<noteq> hd (episodes ! Suc j) key_field)"
  proof (rule allI, rule impI)
    fix episodes assume g: "groupby_episode data key_field = Inr episodes"
    from groupby_episode_concat_eq[OF g] groupby_episode_boundaries[OF g]
    show "concat episodes = data \<and>
      (\<forall>g \<in> set episodes. g \<noteq> [] \<and> (\<exists>v. \<forall>d \<in> set g. d key_field = Some v)) \<and>
      (\<forall>j. Suc j < length episodes \<longrightarrow>
         last (episodes ! j) key_field \<noteq> hd (episodes ! Suc j) key_field)"
      by (rule conjI)
  qed
  show "(\<forall>d \<in> set data. d key_field \<noteq> None) \<longrightarrow>
      (\<exists>episodes. groupby_episode data key_field = Inr episodes)"
    by (rule impI) (rule groupby_episode_total)
qed

theorem groupby_episode_concat_witness:
  "groupby_episode
     [mk_chunk ''e1'' ''A'', mk_chunk ''e2'' ''X'', mk_chunk ''e2'' ''Y'', mk_chunk ''e3'' ''B'']
     ''video_id''
   = Inr [[mk_chunk ''e1'' ''A''], [mk_chunk ''e2'' ''X'', mk_chunk ''e2'' ''Y''],
          [mk_chunk ''e3'' ''B'']] \<and>
   concat [[mk_chunk ''e1'' ''A''], [mk_chunk ''e2'' ''X'', mk_chunk ''e2'' ''Y''],
           [mk_chunk ''e3'' ''B'']]
   = [mk_chunk ''e1'' ''A'', mk_chunk ''e2'' ''X'', mk_chunk ''e2'' ''Y'', mk_chunk ''e3'' ''B'']"
  using groupby_episode_concat
    [of "[mk_chunk ''e1'' ''A'', mk_chunk ''e2'' ''X'', mk_chunk ''e2'' ''Y'',
          mk_chunk ''e3'' ''B'']" "''video_id''"]
  by (simp add: groupby_episode_def getitem_def mk_chunk_def)

text \<open>
  C4. For records that all carry the key field, \<open>groupby_episode\<close> returns groups that are
  the consecutive runs of the input: the groups concatenated are the input, every group is
  non-empty and all its records have one key value, and neighbouring groups have different
  key values, so a group ends exactly where the key value changes. Since a group is a
  contiguous stretch of the input, two runs of one key value that are separated by other
  records are different groups.
\<close>

theorem groupby_episode_runs:
  assumes "\<forall>d \<in> set data. d key_field \<noteq> None"
  shows "\<exists>episodes keys.
           groupby_episode data key_field = Inr episodes \<and>
           concat episodes = data \<and>
           length keys = length episodes \<and>
           (\<forall>j < length episodes.
              episodes ! j \<noteq> [] \<and> (\<forall>d \<in> set (episodes ! j). d key_field = Some (keys ! j))) \<and>
           (\<forall>j. Suc j < length episodes \<longrightarrow> keys ! j \<noteq> keys ! Suc j)"
proof -
  from assms have "\<forall>d \<in> set data. \<exists>k. getitem d key_field = Inr k"
    by (auto simp: getitem_def)
  from groupby_total[OF this] obtain groups where
    groups: "groupby (\<lambda>x. getitem x key_field) data = Inr groups" ..
  let ?episodes = "map snd groups" and ?keys = "map fst groups"
  have ret: "groupby_episode data key_field = Inr ?episodes"
    using groups by (simp add: groupby_episode_def)
  have cat: "concat ?episodes = data"
    by (rule groupby_concat[OF groups])
  have same: "?episodes ! j \<noteq> [] \<and> (\<forall>d \<in> set (?episodes ! j). d key_field = Some (?keys ! j))"
    if "j < length ?episodes" for j
  proof -
    from that have "groups ! j \<in> set groups" by simp
    with groupby_groups[OF groups]
    have "snd (groups ! j) \<noteq> [] \<and>
          (\<forall>y \<in> set (snd (groups ! j)). getitem y key_field = Inr (fst (groups ! j)))"
      by (auto simp: case_prod_beta)
    with that show ?thesis
      by (auto simp: getitem_def split: option.splits)
  qed
  have adj: "?keys ! j \<noteq> ?keys ! Suc j" if "Suc j < length ?episodes" for j
    using groupby_distinct_adj[OF groups] that by (simp add: distinct_adj_conv_nth)
  from ret cat same adj show ?thesis
    by (intro exI[of _ ?episodes] exI[of _ ?keys]) simp
qed

theorem groupby_episode_runs_witness:
  "groupby_episode
     [mk_chunk ''e1'' ''A'', mk_chunk ''e2'' ''X'', mk_chunk ''e1'' ''B''] ''video_id''
   = Inr [[mk_chunk ''e1'' ''A''], [mk_chunk ''e2'' ''X''], [mk_chunk ''e1'' ''B'']]"
proof -
  have h: "\<forall>d \<in> set [mk_chunk ''e1'' ''A'', mk_chunk ''e2'' ''X'', mk_chunk ''e1'' ''B''].
             d ''video_id'' \<noteq> None"
    by (simp add: mk_chunk_def)
  from groupby_episode_runs[OF h] show ?thesis
    by (simp add: groupby_episode_def getitem_def mk_chunk_def)
qed

section \<open>The Window Joiner\<close>

text \<open>
  C1. For a group of text chunks and a window size \<open>W \<ge> 0\<close>, the inner loop of
  \<open>create_expanded_content\<close> returns, at every position \<open>i\<close>, the chunks at the positions
  \<open>max(0, i - W)\<close> to \<open>i + W\<close> inclusive, clamped to the group, joined with one space;
  on well-formed records the whole function returns these strings group by group. For
  the group \<open>A, B, C, D\<close> and \<open>W = 1\<close> the result is \<open>A B\<close>, \<open>A B C\<close>, \<open>B C D\<close>, \<open>C D\<close>.
\<close>

theorem window_joiner:
  assumes "0 \<le> window_size"
  shows "episode_container window_size (map PStr chunks) =
           Inr (spec_expanded (nat window_size) chunks) \<and>
         ((\<forall>d \<in> set data. well_formed key_field d) \<and>
          groupby_episode data key_field = Inr episodes \<longrightarrow>
            create_expanded_content data window_size (int (length episodes)) key_field =
              Inr (map (\<lambda>ep. spec_expanded (nat window_size) (map content_text ep)) episodes)) \<and>
         episode_container 1 (map PStr [''A'', ''B'', ''C'', ''D'']) =
           Inr [''A B'', ''A B C'', ''B C D'', ''C D'']"
proof (intro conjI impI)
  show "episode_container window_size (map PStr chunks) =
          Inr (spec_expanded (nat window_size) chunks)"
    using assms by (simp add: episode_container_strs spec_expanded_def window_spec_window)
  show "episode_container 1 (map PStr [''A'', ''B'', ''C'', ''D'']) =
          Inr [''A B'', ''A B C'', ''B C D'', ''C D'']"
    by (simp add: run_simps upt_rec)
next
  assume a: "(\<forall>d \<in> set data. well_formed key_field d) \<and>
          groupby_episode data key_field = Inr episodes"
  have "map (\<lambda>i. str_join '' '' (window window_size (map content_text ep) i))
          [0 ..< length ep] = spec_expanded (nat window_size) (map content_text ep)"
    for ep :: "chunk list"
    using assms by (simp add: spec_expanded_def window_spec_window)
  with a show "create_expanded_content data window_size (int (length episodes)) key_field =
              Inr (map (\<lambda>ep. spec_expanded (nat window_size) (map content_text ep)) episodes)"
    by (simp add: create_expanded_content_wf[where episodes = episodes])
qed

theorem window_joiner_witness:
  "episode_container 2 (map PStr [''A'', ''B'', ''C'', ''D'']) =
     Inr (spec_expanded 2 [''A'', ''B'', ''C'', ''D'']) \<and>
   spec_expanded 2 [''A'', ''B'', ''C'', ''D''] =
     [''A B C'', ''A B C D'', ''A B C D'', ''B C D''] \<and>
   create_expanded_content
     [mk_chunk ''e1'' ''A'', mk_chunk ''e1'' ''B'', mk_chunk ''e2'' ''X''] 2 2 ''video_id''
   = Inr [[''A B'', ''A B''], [''X'']]"
proof -
  let ?data = "[mk_chunk ''e1'' ''A'', mk_chunk ''e1'' ''B'', mk_chunk ''e2'' ''X'']"
  let ?episodes = "[[mk_chunk ''e1'' ''A'', mk_chunk ''e1'' ''B''], [mk_chunk ''e2'' ''X'']]"
  have nonneg: "(0::int) \<le> 2" by simp
  have wf: "\<forall>d \<in> set ?data. well_formed ''video_id'' d"
    by (simp add: well_formed_def mk_chunk_def)
  have g: "groupby_episode ?data ''video_id'' = Inr ?episodes"
    by (simp add: groupby_episode_def getitem_def mk_chunk_def)
  from window_joiner[OF nonneg, of "[''A'', ''B'', ''C'', ''D'']" ?data "''video_id''" ?episodes]
    wf g
  show ?thesis
    by (simp add: spec_expanded_def spec_window_def content_text_def mk_chunk_def upt_rec)
qed

section \<open>Integrity checks of \<open>create_expanded_content\<close>\<close>

text \<open>
  C6. \<open>create_expanded_content\<close> ends with the assertion error exactly when the grouper
  returned groups whose number differs from \<open>num_episodes\<close>; the assertion comes before
  the content fields are read, so no later step runs after a mismatch. On well-formed
  records whose group count matches it returns a result, and it returns a result only
  when the count matches.
\<close>

theorem create_expanded_content_assertion:
  "(create_expanded_content data window_size num_episodes key_field = Inl AssertionError \<longleftrightarrow>
      (\<exists>episodes. groupby_episode data key_field = Inr episodes \<and>
                  int (length episodes) \<noteq> num_episodes)) \<and>
   ((\<forall>d \<in> set data. well_formed key_field d) \<and>
    (\<exists>episodes. groupby_episode data key_field = Inr episodes \<and>
                int (length episodes) = num_episodes) \<longrightarrow>
      (\<exists>out. create_expanded_content data window_size num_episodes key_field = Inr out)) \<and>
   (\<forall>out. create_expanded_content data window_size num_episodes key_field = Inr out \<longrightarrow>
      (\<exists>episodes. groupby_episode data key_field = Inr episodes \<and>
                  int (length episodes) = num_episodes))"
proof (intro conjI)
  show "create_expanded_content data window_size num_episodes key_field = Inl AssertionError \<longleftrightarrow>
      (\<exists>episodes. groupby_episode data key_field = Inr episodes \<and>
                  int (length episodes) \<noteq> num_episodes)"
  proof (cases "groupby_episode data key_field")
    case (Inl e)
    with groupby_episode_error[OF Inl] show ?thesis
      by (simp add: create_expanded_content_def)
  next
    case (Inr episodes)
    have no1: "for_each (for_each (\<lambda>d. getitem d ''content'')) episodes \<noteq> Inl AssertionError"
      by (auto simp: getitem_def split: option.splits dest!: for_each_error)
    have no2: "for_each (episode_container window_size) cl \<noteq> Inl AssertionError" for cl
      by (auto dest!: for_each_error episode_container_error)
    from Inr no1 no2 show ?thesis
      by (auto simp: create_expanded_content_def split: sum.splits)
  qed
  show "(\<forall>d \<in> set data. well_formed key_field d) \<and>
    (\<exists>episodes. groupby_episode data key_field = Inr episodes \<and>
                int (length episodes) = num_episodes) \<longrightarrow>
      (\<exists>out. create_expanded_content data window_size num_episodes key_field = Inr out)"
    using create_expanded_content_wf by blast
  show "\<forall>out. create_expanded_content data window_size num_episodes key_field = Inr out \<longrightarrow>
      (\<exists>episodes. groupby_episode data key_field = Inr episodes \<and>
                  int (length episodes) = num_episodes)"
    by (auto simp: create_expanded_content_def split: sum.splits if_splits)
qed

theorem create_expanded_content_assertion_witness:
  "create_expanded_content
     [mk_chunk ''e1'' ''A'', mk_chunk ''e1'' ''B'', mk_chunk ''e2'' ''X''] 1 3 ''video_id''
   = Inl AssertionError \<and>
   create_expanded_content
     [mk_chunk ''e1'' ''A'', mk_chunk ''e1'' ''B'', mk_chunk ''e2'' ''X''] 1 2 ''video_id''
   = Inr [[''A B'', ''A B''], [''X'']]"
  using create_expanded_content_assertion
          [of "[mk_chunk ''e1'' ''A'', mk_chunk ''e1'' ''B'', mk_chunk ''e2'' ''X'']"
              1 3 "''video_id''"]
        create_expanded_content_assertion
          [of "[mk_chunk ''e1'' ''A'', mk_chunk ''e1'' ''B'', mk_chunk ''e2'' ''X'']"
              1 2 "''video_id''"]
  by (simp add: run_simps upt_rec)

section \<open>Windows and the boundaries of a group\<close>

text \<open>
  C2. The strings computed for a group depend on that group alone: whenever
  \<open>create_expanded_content\<close> returns, the groups are the consecutive runs of the input and
  the strings of each group are what the function returns when it is run on that group by
  itself, so no window reaches into a neighbouring group. For the groups \<open>A, B\<close> and
  \<open>X, Y, Z\<close> with window size 1 no string contains \<open>B X\<close>.
\<close>

theorem windows_within_episode:
  "(\<forall>out. create_expanded_content data window_size num_episodes key_field = Inr out \<longrightarrow>
      (\<exists>episodes. groupby_episode data key_field = Inr episodes \<and>
         concat episodes = data \<and> length out = length episodes \<and>
         (\<forall>g < length episodes.
            create_expanded_content (episodes ! g) window_size 1 key_field = Inr [out ! g]))) \<and>
   create_expanded_content
     [mk_chunk ''e1'' ''A'', mk_chunk ''e1'' ''B'',
      mk_chunk ''e2'' ''X'', mk_chunk ''e2'' ''Y'', mk_chunk ''e2'' ''Z''] 1 2 ''video_id''
   = Inr [[''A B'', ''A B''], [''X Y'', ''X Y Z'', ''Y Z'']] \<and>
   list_all (\<lambda>s. \<not> sublist ''B X'' s)
     (concat [[''A B'', ''A B''], [''X Y'', ''X Y Z'', ''Y Z'']])"
proof (intro conjI allI impI)
  fix out
  assume "create_expanded_content data window_size num_episodes key_field = Inr out"
  then show "\<exists>episodes. groupby_episode data key_field = Inr episodes \<and>
         concat episodes = data \<and> length out = length episodes \<and>
         (\<forall>g < length episodes.
            create_expanded_content (episodes ! g) window_size 1 key_field = Inr [out ! g])"
    by (rule create_expanded_content_per_episode)
next
  show "create_expanded_content
     [mk_chunk ''e1'' ''A'', mk_chunk ''e1'' ''B'',
      mk_chunk ''e2'' ''X'', mk_chunk ''e2'' ''Y'', mk_chunk ''e2'' ''Z''] 1 2 ''video_id''
   = Inr [[''A B'', ''A B''], [''X Y'', ''X Y Z'', ''Y Z'']]"
    by (simp add: run_simps upt_rec)
next
  show "list_all (\<lambda>s. \<not> sublist ''B X'' s)
     (concat [[''A B'', ''A B''], [''X Y'', ''X Y Z'', ''Y Z'']])"
    by (simp add: sublist_code)
qed

theorem windows_within_episode_witness:
  "create_expanded_content
     [mk_chunk ''e1'' ''A'', mk_chunk ''e1'' ''B'', mk_chunk ''e2'' ''X''] 1 2 ''video_id''
   = Inr [[''A B'', ''A B''], [''X'']] \<and>
   create_expanded_content [mk_chunk ''e1'' ''A'', mk_chunk ''e1'' ''B''] 1 1 ''video_id''
   = Inr [[''A B'', ''A B'']] \<and>
   create_expanded_content [mk_chunk ''e2'' ''X''] 1 1 ''video_id'' = Inr [[''X'']]"
  using windows_within_episode
          [of "[mk_chunk ''e1'' ''A'', mk_chunk ''e1'' ''B'', mk_chunk ''e2'' ''X'']"
              1 2 "''video_id''"]
  by (simp add: run_simps upt_rec)

text \<open>
  C8, as amended. Let \<open>W \<ge> 0\<close>. In a non-empty group the window at the first and at the
  last position holds \<open>min(n, W + 1)\<close> chunks, \<open>n\<close> the length of the group; this is at most
  \<open>W + 1\<close> fewer than the \<open>2W + 1\<close> chunks of an unclamped window when the group has at
  least \<open>W\<close> chunks. Every window is the clamped range of the contract, with at most
  \<open>2W + 1\<close> chunks: it shrinks at the ends of the group, nothing is padded or wrapped. For
  \<open>W = 0\<close> the result on well-formed records is the content of every record, group by
  group.
\<close>

theorem window_edges:
  "(0 \<le> window_size \<and> episode \<noteq> [] \<longrightarrow>
      length (window window_size episode 0) = min (length episode) (nat window_size + 1) \<and>
      length (window window_size episode (length episode - 1)) =
        min (length episode) (nat window_size + 1)) \<and>
   (0 \<le> window_size \<and> episode \<noteq> [] \<and> nat window_size \<le> length episode \<longrightarrow>
      2 * window_size + 1 - int (length (window window_size episode 0)) \<le> window_size + 1 \<and>
      2 * window_size + 1 - int (length (window window_size episode (length episode - 1)))
        \<le> window_size + 1) \<and>
   (0 \<le> window_size \<and> i < length episode \<longrightarrow>
      window window_size episode i = spec_window (nat window_size) episode i \<and>
      int (length (window window_size episode i)) \<le> 2 * window_size + 1) \<and>
   ((\<forall>d \<in> set data. well_formed key_field d) \<and>
    groupby_episode data key_field = Inr episodes \<longrightarrow>
      create_expanded_content data 0 (int (length episodes)) key_field =
        Inr (map (map content_text) episodes))"
proof (intro conjI impI)
  assume a: "0 \<le> window_size \<and> episode \<noteq> []"
  then have n: "0 < length episode" by simp
  from a show "length (window window_size episode 0) = min (length episode) (nat window_size + 1)"
    by (simp add: window_length_nonneg[OF _ n])
  from a have l: "length episode - 1 < length episode" by simp
  from a show "length (window window_size episode (length episode - 1)) =
        min (length episode) (nat window_size + 1)"
    unfolding window_length_nonneg[OF conjunct1[OF a] l] by auto
next
  assume a: "0 \<le> window_size \<and> episode \<noteq> [] \<and> nat window_size \<le> length episode"
  then have n: "0 < length episode" and l: "length episode - 1 < length episode" by simp_all
  from a show "2 * window_size + 1 - int (length (window window_size episode 0)) \<le> window_size + 1"
    unfolding window_length_nonneg[OF conjunct1[OF a] n] by (auto simp: min_def)
  from a show "2 * window_size + 1 - int (length (window window_size episode (length episode - 1)))
        \<le> window_size + 1"
    unfolding window_length_nonneg[OF conjunct1[OF a] l] by (auto simp: min_def)
next
  assume a: "0 \<le> window_size \<and> i < length episode"
  then show "window window_size episode i = spec_window (nat window_size) episode i"
    by (simp add: window_spec_window)
  from a show "int (length (window window_size episode i)) \<le> 2 * window_size + 1"
    by (auto simp: window_length_nonneg min_def)
next
  assume a: "(\<forall>d \<in> set data. well_formed key_field d) \<and>
    groupby_episode data key_field = Inr episodes"
  have "map (\<lambda>i. str_join '' '' (window 0 (map content_text ep) i)) [0 ..< length ep] =
          map content_text ep" for ep :: "chunk list"
    by (rule nth_equalityI) (simp_all add: window_zero)
  with a show "create_expanded_content data 0 (int (length episodes)) key_field =
        Inr (map (map content_text) episodes)"
    by (simp add: create_expanded_content_wf[where episodes = episodes])
qed

theorem window_edges_witness:
  "length (window 1 [''A'', ''B'', ''C'', ''D''] 0) = 2 \<and>
   length (window 1 [''A'', ''B'', ''C'', ''D''] 3) = 2 \<and>
   window 1 [''A'', ''B'', ''C'', ''D''] 1 = [''A'', ''B'', ''C''] \<and>
   create_expanded_content
     [mk_chunk ''e1'' ''A'', mk_chunk ''e1'' ''B'', mk_chunk ''e2'' ''X''] 0 2 ''video_id''
   = Inr [[''A'', ''B''], [''X'']]"
  using window_edges
          [of 1 "[''A'', ''B'', ''C'', ''D'']" 1
              "[mk_chunk ''e1'' ''A'', mk_chunk ''e1'' ''B'', mk_chunk ''e2'' ''X'']"
              "''video_id''"
              "[[mk_chunk ''e1'' ''A'', mk_chunk ''e1'' ''B''], [mk_chunk ''e2'' ''X'']]"]
  by (simp add: run_simps upt_rec)

text \<open>
  C8 as it is worded fails for a group shorter than \<open>W\<close>: the only window of the
  group \<open>A\<close> with \<open>W = 2\<close> holds one chunk, four fewer than \<open>2W + 1 = 5\<close>, and \<open>W + 1 = 3\<close>.
\<close>

theorem window_edges_counterexample:
  "window 2 [''A''] 0 = [''A''] \<and>
   \<not> (2 * 2 + 1 - int (length (window 2 [''A''] 0)) \<le> (2::int) + 1)"
  by (simp add: run_simps)

text \<open>
  C9. For \<open>W \<ge> 0\<close>, whenever \<open>create_expanded_content\<close> returns, the strings flattened in
  order line up with the records, and the content of every record is a string that occurs
  as a contiguous part of the string computed for it. The function returns on well-formed
  records whose group count matches.
\<close>

theorem content_in_expanded:
  "(\<forall>out. 0 \<le> window_size \<and>
          create_expanded_content data window_size num_episodes key_field = Inr out \<longrightarrow>
      list_all2 (\<lambda>d s. \<exists>c. d ''content'' = Some (PStr c) \<and> sublist c s) data (concat out)) \<and>
   ((\<forall>d \<in> set data. well_formed key_field d) \<and>
    (\<exists>episodes. groupby_episode data key_field = Inr episodes \<and>
                int (length episodes) = num_episodes) \<longrightarrow>
      (\<exists>out. create_expanded_content data window_size num_episodes key_field = Inr out))"
proof (intro conjI allI impI)
  fix out
  assume a: "0 \<le> window_size \<and>
          create_expanded_content data window_size num_episodes key_field = Inr out"
  let ?P = "\<lambda>d s. \<exists>c. d ''content'' = Some (PStr c) \<and> sublist c s"
  from a obtain episodes chunk_list where
    g: "groupby_episode data key_field = Inr episodes"
    and cl: "for_each (for_each (\<lambda>d. getitem d ''content'')) episodes = Inr chunk_list"
    and out: "for_each (episode_container window_size) chunk_list = Inr out"
    by (auto simp: create_expanded_content_def split: sum.splits if_splits)
  from cl have cl2: "list_all2 (\<lambda>ep c. list_all2 (\<lambda>d v. getitem d ''content'' = Inr v) ep c)
                       episodes chunk_list"
    by (simp add: for_each_Inr_iff)
  from out have out2: "list_all2 (\<lambda>c strs. episode_container window_size c = Inr strs) chunk_list out"
    by (simp add: for_each_Inr_iff)
  have "list_all2 ?P (episodes ! j) (out ! j)" if j: "j < length episodes" for j
  proof -
    from cl2 j have 1: "list_all2 (\<lambda>d v. getitem d ''content'' = Inr v) (episodes ! j) (chunk_list ! j)"
      by (simp add: list_all2_conv_all_nth)
    from out2 cl2 j have "episode_container window_size (chunk_list ! j) = Inr (out ! j)"
      by (simp add: list_all2_conv_all_nth)
    from episode_container_items[OF conjunct1[OF a] this]
    have 2: "list_all2 (\<lambda>v s. \<exists>c. v = PStr c \<and> sublist c s) (chunk_list ! j) (out ! j)" .
    from 1 2 show ?thesis
      by (auto simp: list_all2_conv_all_nth getitem_def split: option.splits)
  qed
  moreover have "length out = length episodes"
    using cl2 out2 by (simp add: list_all2_lengthD)
  ultimately have "list_all2 (list_all2 ?P) episodes out"
    by (simp add: list_all2_conv_all_nth)
  from list_all2_concat[OF this] groupby_episode_concat_eq[OF g]
  show "list_all2 ?P data (concat out)" by simp
next
  assume "(\<forall>d \<in> set data. well_formed key_field d) \<and>
    (\<exists>episodes. groupby_episode data key_field = Inr episodes \<and>
                int (length episodes) = num_episodes)"
  then show "\<exists>out. create_expanded_content data window_size num_episodes key_field = Inr out"
    using create_expanded_content_wf by blast
qed

theorem content_in_expanded_witness:
  "create_expanded_content
     [mk_chunk ''e1'' ''A'', mk_chunk ''e1'' ''B'', mk_chunk ''e2'' ''X''] 1 2 ''video_id''
   = Inr [[''A B'', ''A B''], [''X'']] \<and>
   list_all2 (\<lambda>d s. \<exists>c. d ''content'' = Some (PStr c) \<and> sublist c s)
     [mk_chunk ''e1'' ''A'', mk_chunk ''e1'' ''B'', mk_chunk ''e2'' ''X'']
     (concat [[''A B'', ''A B''], [''X'']])"
proof -
  have r: "create_expanded_content
     [mk_chunk ''e1'' ''A'', mk_chunk ''e1'' ''B'', mk_chunk ''e2'' ''X''] 1 2 ''video_id''
   = Inr [[''A B'', ''A B''], [''X'']]"
    by (simp add: run_simps upt_rec)
  from content_in_expanded
         [of 1 "[mk_chunk ''e1'' ''A'', mk_chunk ''e1'' ''B'', mk_chunk ''e2'' ''X'']"
             2 "''video_id''"] r
  show ?thesis by simp
qed

text \<open>
  C10, as amended. For \<open>W < 0\<close>, on well-formed records whose group count matches,
  \<open>create_expanded_content\<close> returns one string per record. The string at position \<open>i\<close>
  of a group of \<open>n\<close> chunks is empty whenever \<open>i + W + 1 \<ge> 0\<close> or \<open>n < -2W\<close>; for
  \<open>W = -1\<close> every string is empty. At the remaining positions, \<open>i + W + 1 < 0\<close> in a
  group with \<open>n \<ge> -2W\<close>, the end of the slice is negative and counts from the end of
  the group: the slice is the non-empty range of the positions from \<open>i - W\<close> up to but
  not including \<open>n + i + W + 1\<close>, and the string is these chunks joined with one space.
\<close>

theorem negative_window:
  assumes neg: "window_size < 0"
    and wf: "\<forall>d \<in> set data. well_formed key_field d"
    and g: "groupby_episode data key_field = Inr episodes"
    and n: "int (length episodes) = num_episodes"
  shows "\<exists>out. create_expanded_content data window_size num_episodes key_field = Inr out \<and>
           list_all2 (\<lambda>ep strs. length strs = length ep \<and>
              (\<forall>i < length ep.
                 (0 \<le> int i + window_size + 1 \<or> int (length ep) < - 2 * window_size
                    \<longrightarrow> strs ! i = []) \<and>
                 (int i + window_size + 1 < 0 \<and> - 2 * window_size \<le> int (length ep)
                    \<longrightarrow> nat (int i - window_size)
                          < nat (int (length ep) + int i + window_size + 1) \<and>
                        nat (int (length ep) + int i + window_size + 1) \<le> length ep \<and>
                        strs ! i = str_join '' ''
                          (map (\<lambda>j. content_text (ep ! j))
                             [nat (int i - window_size) ..<
                              nat (int (length ep) + int i + window_size + 1)]))))
             episodes out \<and>
           (window_size = - 1 \<longrightarrow> (\<forall>s \<in> set (concat out). s = []))"
proof -
  let ?f = "\<lambda>ep. map (\<lambda>i. str_join '' '' (window window_size (map content_text ep) i))
                      [0 ..< length ep]"
  have out: "create_expanded_content data window_size num_episodes key_field = Inr (map ?f episodes)"
    by (rule create_expanded_content_wf[OF wf g n])
  have empty: "?f ep ! i = []"
    if "i < length ep" "0 \<le> int i + window_size + 1 \<or> int (length ep) < - 2 * window_size"
    for ep :: "chunk list" and i
    using that neg by (simp add: window_negative_empty)
  have wrap: "nat (int i - window_size) < nat (int (length ep) + int i + window_size + 1) \<and>
              nat (int (length ep) + int i + window_size + 1) \<le> length ep \<and>
              ?f ep ! i = str_join '' ''
                (map (\<lambda>j. content_text (ep ! j))
                   [nat (int i - window_size) ..< nat (int (length ep) + int i + window_size + 1)])"
    if i: "i < length ep" and w: "int i + window_size + 1 < 0" "- 2 * window_size \<le> int (length ep)"
    for ep :: "chunk list" and i
  proof -
    from window_negative_wrap[OF neg i w]
    have "nat (int i - window_size) < nat (int (length ep) + int i + window_size + 1)"
      and "nat (int (length ep) + int i + window_size + 1) \<le> length ep"
      by simp_all
    moreover from i have "?f ep ! i = str_join '' '' (window window_size (map content_text ep) i)"
      by simp
    ultimately show ?thesis
      by (simp only: window_negative_wrap_text[OF neg i w])
  qed
  have shape: "list_all2 (\<lambda>ep strs. length strs = length ep \<and>
              (\<forall>i < length ep.
                 (0 \<le> int i + window_size + 1 \<or> int (length ep) < - 2 * window_size
                    \<longrightarrow> strs ! i = []) \<and>
                 (int i + window_size + 1 < 0 \<and> - 2 * window_size \<le> int (length ep)
                    \<longrightarrow> nat (int i - window_size)
                          < nat (int (length ep) + int i + window_size + 1) \<and>
                        nat (int (length ep) + int i + window_size + 1) \<le> length ep \<and>
                        strs ! i = str_join '' ''
                          (map (\<lambda>j. content_text (ep ! j))
                             [nat (int i - window_size) ..<
                              nat (int (length ep) + int i + window_size + 1)]))))
             episodes (map ?f episodes)"
    unfolding list_all2_conv_all_nth
  proof (intro conjI allI impI)
    show "length episodes = length (map ?f episodes)" by simp
  next
    fix k assume "k < length episodes"
    then show "length (map ?f episodes ! k) = length (episodes ! k)" by simp
  next
    fix k i
    assume k: "k < length episodes" and i: "i < length (episodes ! k)"
      and c: "0 \<le> int i + window_size + 1 \<or> int (length (episodes ! k)) < - 2 * window_size"
    from empty[OF i c] k show "map ?f episodes ! k ! i = []" by simp
  next
    fix k i
    assume k: "k < length episodes" and i: "i < length (episodes ! k)"
      and c: "int i + window_size + 1 < 0 \<and> - 2 * window_size \<le> int (length (episodes ! k))"
    from wrap[OF i conjunct1[OF c] conjunct2[OF c]] k
    show "nat (int i - window_size)
            < nat (int (length (episodes ! k)) + int i + window_size + 1)"
      and "nat (int (length (episodes ! k)) + int i + window_size + 1) \<le> length (episodes ! k)"
      and "map ?f episodes ! k ! i = str_join '' ''
             (map (\<lambda>j. content_text (episodes ! k ! j))
                [nat (int i - window_size) ..<
                 nat (int (length (episodes ! k)) + int i + window_size + 1)])"
      by simp_all
  qed
  have all: "\<forall>s \<in> set (concat (map ?f episodes)). s = []" if "window_size = - 1"
  proof
    fix s assume "s \<in> set (concat (map ?f episodes))"
    then obtain ep i where "i < length ep"
      and s: "s = str_join '' '' (window window_size (map content_text ep) i)"
      by auto
    with that have "window window_size (map content_text ep) i = []"
      by (intro window_negative_empty) simp_all
    with s show "s = []" by simp
  qed
  show ?thesis
  proof (intro exI conjI)
    show "create_expanded_content data window_size num_episodes key_field = Inr (map ?f episodes)"
      by (rule out)
  next
    show "window_size = - 1 \<longrightarrow> (\<forall>s \<in> set (concat (map ?f episodes)). s = [])"
      using all by (rule impI)
  qed (rule shape)
qed

theorem negative_window_witness:
  "create_expanded_content
     [mk_chunk ''e1'' ''A'', mk_chunk ''e1'' ''B'', mk_chunk ''e1'' ''C'',
      mk_chunk ''e1'' ''D'', mk_chunk ''e1'' ''E''] (- 2) 1 ''video_id''
   = Inr [[''C D'', [], [], [], []]] \<and>
   create_expanded_content
     [mk_chunk ''e1'' ''A'', mk_chunk ''e1'' ''B'', mk_chunk ''e2'' ''X''] (- 1) 2 ''video_id''
   = Inr [[[], []], [[]]]"
proof -
  let ?d1 = "[mk_chunk ''e1'' ''A'', mk_chunk ''e1'' ''B'', mk_chunk ''e1'' ''C'',
      mk_chunk ''e1'' ''D'', mk_chunk ''e1'' ''E'']"
  let ?d2 = "[mk_chunk ''e1'' ''A'', mk_chunk ''e1'' ''B'', mk_chunk ''e2'' ''X'']"
  have neg2: "(- 2 :: int) < 0" and neg1: "(- 1 :: int) < 0" by simp_all
  have wf1: "\<forall>d \<in> set ?d1. well_formed ''video_id'' d"
    and wf2: "\<forall>d \<in> set ?d2. well_formed ''video_id'' d"
    by (simp_all add: well_formed_def mk_chunk_def)
  have g1: "groupby_episode ?d1 ''video_id'' = Inr [?d1]"
    by (simp add: groupby_episode_def getitem_def mk_chunk_def)
  have g2: "groupby_episode ?d2 ''video_id'' =
             Inr [[mk_chunk ''e1'' ''A'', mk_chunk ''e1'' ''B''], [mk_chunk ''e2'' ''X'']]"
    by (simp add: groupby_episode_def getitem_def mk_chunk_def)
  have n1: "int (length [?d1]) = 1" by simp
  have n2: "int (length [[mk_chunk ''e1'' ''A'', mk_chunk ''e1'' ''B''], [mk_chunk ''e2'' ''X'']]) = 2"
    by simp
  from negative_window[OF neg2 wf1 g1 n1] negative_window[OF neg1 wf2 g2 n2]
  show ?thesis
    by (simp add: run_simps upt_rec)
qed

text \<open>
  C10 as it is worded fails for \<open>W \<le> -2\<close>: in the group \<open>A, B, C, D\<close> with \<open>W = -2\<close>
  the slice at position 0 is \<^verbatim>\<open>episode[2:-1]\<close>, the chunk \<open>C\<close>.
\<close>

theorem negative_window_counterexample:
  "create_expanded_content
     [mk_chunk ''e1'' ''A'', mk_chunk ''e1'' ''B'', mk_chunk ''e1'' ''C'', mk_chunk ''e1'' ''D'']
     (- 2) 1 ''video_id''
   = Inr [[''C'', [], [], []]] \<and>
   \<not> list_all (\<lambda>s. s = []) (concat [[''C'', [], [], []]])"
  by (simp add: run_simps upt_rec)

section \<open>The Field Merger\<close>

text \<open>
  C5. \<open>join_expanded_content\<close> returns the records it was given, whatever the strings: for
  one record and one expanded string, the returned record has no \<^verbatim>\<open>expanded_content\<close>
  field, so reading that field raises \<^verbatim>\<open>KeyError\<close> and the assertion of the notebook's
  post-check fails. The docstring of the function promises the update that the claim
  describes.
\<close>

theorem join_expanded_content_returns_data:
  "join_expanded_content data flattened_content new_key = Inr data \<and>
   join_expanded_content [mk_chunk ''e1'' ''A''] [''A''] ''expanded_content'' =
     Inr [mk_chunk ''e1'' ''A''] \<and>
   for_each (\<lambda>d. getitem d ''expanded_content'') [mk_chunk ''e1'' ''A''] =
     Inl (KeyError ''expanded_content'') \<and>
   post_check [mk_chunk ''e1'' ''A''] = Inl AssertionError"
  by (simp add: join_expanded_content_def post_check_def dict_get_def getitem_def mk_chunk_def)


end
